theory Spec2Isabelle
  imports Complex_Main
begin

section \<open>Values of the host language\<close>

text \<open>
  The module \<open>src/lang/function.js\<close> extends \<open>Function.prototype\<close> with eight methods.
  Its data are JavaScript values: primitives, plain objects and function objects, the last
  two by reference. Numbers are carried as rationals (\<open>JNaN\<close> apart); strings are lists of
  8-bit characters, that is, texts within Latin-1. \<open>Boxed p\<close> is the wrapper object the
  host makes of a primitive that is used as a receiver.
\<close>

datatype prim = JBool bool | JNum rat | JNaN | JStr string

datatype val = Undefined | Null | Prim prim | Obj nat | Fn nat | Boxed prim

text \<open>\<open>ToBoolean\<close>: what \<open>if (v)\<close>, \<open>v || w\<close>, \<open>!v\<close> and \<open>v ? a : b\<close> test.\<close>

fun truthy :: "val \<Rightarrow> bool" where
  "truthy Undefined = False"
| "truthy Null = False"
| "truthy (Prim (JBool b)) = b"
| "truthy (Prim (JNum r)) = (r \<noteq> 0)"
| "truthy (Prim JNaN) = False"
| "truthy (Prim (JStr s)) = (s \<noteq> [])"
| "truthy (Obj a) = True"
| "truthy (Fn a) = True"
| "truthy (Boxed p) = True"

text \<open>\<open>a || b\<close>.\<close>

definition js_or :: "val \<Rightarrow> val \<Rightarrow> val" where
  "js_or a b = (if truthy a then a else b)"

text \<open>The global object, \<open>window\<close>.\<close>

definition window :: val where
  "window = Obj 0"

text \<open>
  None of the functions of the module is strict code, so \<open>this\<close> in their bodies is never
  undefined, null or a primitive: the host replaces an undefined or null receiver by the
  global object and a primitive receiver by its wrapper object.
\<close>

fun this_binding :: "val \<Rightarrow> val" where
  "this_binding Undefined = window"
| "this_binding Null = window"
| "this_binding (Prim p) = Boxed p"
| "this_binding v = v"

fun is_object :: "val \<Rightarrow> bool" where
  "is_object (Obj a) = True"
| "is_object (Fn a) = True"
| "is_object (Boxed p) = True"
| "is_object v = False"

text \<open>
  Modelled from the spec: \<open>Object.isUndefined\<close>, which \<open>bind\<close> calls, is defined in
  another file of the library (\<open>src/lang/object.js\<close>) that is not among the sources. The
  spec says that \<open>bind\<close> returns the original callable when the binding target is absent;
  an absent argument reads as the undefined value, so the test holds of that value only.
\<close>

definition isUndefined :: "val \<Rightarrow> bool" where
  "isUndefined v = (v = Undefined)"

section \<open>Argument lists\<close>

text \<open>
  An array, and the \<open>arguments\<close> object, is the list of its elements. \<open>arg as i\<close> reads
  \<open>arguments[i]\<close> (a formal parameter is \<open>arguments[0]\<close>): undefined out of range.
  \<open>put array i v\<close> is the assignment \<open>array[i] = v\<close>, which extends a shorter array
  (the holes it leaves read as undefined). \<open>slice as n\<close> is
  \<open>Array.prototype.slice.call(as, n)\<close>, a fresh array.
\<close>

definition arg :: "val list \<Rightarrow> nat \<Rightarrow> val" where
  "arg as i = (if i < length as then as ! i else Undefined)"

definition put :: "val list \<Rightarrow> nat \<Rightarrow> val \<Rightarrow> val list" where
  "put array i v =
     (if i < length array then array[i := v]
      else array @ replicate (i - length array) Undefined @ [v])"

definition slice :: "val list \<Rightarrow> nat \<Rightarrow> val list" where
  "slice as n = drop n as"

text \<open>
  \<^verbatim>\<open>while (length--) array[arrayLength + length] = args[length];\<close>
  The test reads \<open>length\<close> and then decrements it, so the body runs with the decremented
  value (\<open>len\<close> below), from \<open>args.length - 1\<close> down to \<open>0\<close>.
\<close>

fun update_loop :: "val list \<Rightarrow> nat \<Rightarrow> val list \<Rightarrow> nat \<Rightarrow> val list" where
  "update_loop array arrayLength args 0 = array"
| "update_loop array arrayLength args (Suc len) =
     update_loop (put array (arrayLength + len) (arg args len)) arrayLength args len"

definition update :: "val list \<Rightarrow> val list \<Rightarrow> val list" where
  "update array args = update_loop array (length array) args (length args)"

definition merge :: "val list \<Rightarrow> val list \<Rightarrow> val list" where
  "merge array args = update (slice array 0) args"

section \<open>Function objects and the state of the host\<close>

text \<open>
  What a callable does when it is called. A function given to the module from outside is
  \<open>Native beh\<close>: from its receiver and arguments it returns, throws, or invokes a value
  and goes on with the completion of that call. Every function expression of the module is
  one constructor of \<open>closure\<close>, holding the variables the expression captures
  (\<open>__method\<close> first): the two that \<open>bind\<close> returns (lines 46 and 50 of
  \<open>function.js\<close>), the two of \<open>bindAsEventListener\<close> (lines 68 and 73), the one of
  \<open>curry\<close> (line 90), the two thunks of \<open>delay\<close> (lines 112 and 113), the one of
  \<open>wrap\<close> (line 147) and the one of \<open>methodize\<close> (line 164).
\<close>

datatype completion = Normal val | Throw val | TypeError

datatype action =
    Return val
  | Raise val
  | Invoke val val "val list" "completion \<Rightarrow> action"

datatype closure =
    Bind_args nat val "val list"
  | Bind_noargs nat val
  | Listener_args nat val "val list"
  | Listener_noargs nat val
  | Curried nat "val list"
  | Delayed_args nat "val list"
  | Delayed_noargs nat
  | Wrapped nat val
  | Methodized nat

datatype code = Native "val \<Rightarrow> val list \<Rightarrow> action" | Closure closure

text \<open>
  A function object: its code and the own property \<open>_methodized\<close> (undefined while
  absent), the one property the module reads or writes.
\<close>

record fobj =
  code :: code
  methodized :: val

text \<open>
  The state: the function objects (\<open>Fn r\<close> refers to \<open>funs ! r\<close>), the text the
  host's \<open>Function.prototype.toString\<close> gives for each of them, the ambient
  \<open>window.event\<close>, the pending timers of the scheduler (identifier, callback, timeout)
  with the next identifier, and the trace, which records every entry into a function with
  its receiver and arguments.
\<close>

record state =
  funs :: "fobj list"
  toString :: "nat \<Rightarrow> string"
  window_event :: val
  timers :: "(nat \<times> val \<times> val) list"
  next_timer :: nat
  trace :: "(nat \<times> val \<times> val list) list"

definition valid_fn :: "state \<Rightarrow> nat \<Rightarrow> bool" where
  "valid_fn st f = (f < length (funs st))"

text \<open>Evaluating a function expression makes a new function object.\<close>

definition alloc :: "state \<Rightarrow> closure \<Rightarrow> val \<times> state" where
  "alloc st cl =
     (Fn (length (funs st)),
      st\<lparr>funs := funs st @ [\<lparr>code = Closure cl, methodized = Undefined\<rparr>]\<rparr>)"

definition enter :: "state \<Rightarrow> nat \<Rightarrow> val \<Rightarrow> val list \<Rightarrow> state" where
  "enter st r c xs = st\<lparr>trace := trace st @ [(r, c, xs)]\<rparr>"

section \<open>The operations\<close>

text \<open>
  Each method takes the state, its receiver \<open>f\<close> (the function it is called on, \<open>this\<close>,
  a function of the state: \<open>valid_fn st f\<close>) and its \<open>arguments\<close>, and returns its
  result with the new state. \<open>curry\<close> and \<open>defer\<close> are \<open>curry_op\<close> and
  \<open>defer_op\<close> here.
\<close>

definition bind :: "state \<Rightarrow> nat \<Rightarrow> val list \<Rightarrow> val \<times> state" where
  "bind st f as =
     (if length as < 2 \<and> isUndefined (arg as 0) then (Fn f, st)
      else
        let context = arg as 0; args = slice as 1 in
        if args \<noteq> [] then alloc st (Bind_args f context args)
        else alloc st (Bind_noargs f context))"

definition bindAsEventListener :: "state \<Rightarrow> nat \<Rightarrow> val list \<Rightarrow> val \<times> state" where
  "bindAsEventListener st f as =
     (let context = arg as 0; args = slice as 1 in
      if args \<noteq> [] then alloc st (Listener_args f context args)
      else alloc st (Listener_noargs f context))"

definition curry_op :: "state \<Rightarrow> nat \<Rightarrow> val list \<Rightarrow> val \<times> state" where
  "curry_op st f as =
     (if as = [] then (Fn f, st)
      else alloc st (Curried f (slice as 0)))"

definition wrap :: "state \<Rightarrow> nat \<Rightarrow> val list \<Rightarrow> val \<times> state" where
  "wrap st f as = alloc st (Wrapped f (arg as 0))"

definition methodize :: "state \<Rightarrow> nat \<Rightarrow> val \<times> state" where
  "methodize st f =
     (if truthy (methodized (funs st ! f)) then (methodized (funs st ! f), st)
      else
        let (m, st1) = alloc st (Methodized f) in
        (m, st1\<lparr>funs := (funs st1)[f := (funs st1 ! f)\<lparr>methodized := m\<rparr>]\<rparr>))"

text \<open>
  Modelled from the spec: the scheduler is the host's (\<open>window.setTimeout\<close> and
  \<open>window.clearTimeout\<close>), an external collaborator with the interface
  \<open>scheduleAfter(delay, thunk) -> token\<close> and \<open>cancel(token)\<close>. Scheduling appends a
  pending timer and returns its identifier as the token; cancelling removes the timer with
  that token; \<open>fire\<close> is one dispatch by the host (below, after \<open>call\<close>).
\<close>

definition token :: "nat \<Rightarrow> val" where
  "token i = Prim (JNum (of_nat i))"

definition setTimeout :: "state \<Rightarrow> val \<Rightarrow> val \<Rightarrow> val \<times> state" where
  "setTimeout st fn timeout =
     (token (next_timer st),
      st\<lparr>timers := timers st @ [(next_timer st, fn, timeout)],
         next_timer := Suc (next_timer st)\<rparr>)"


text \<open>
  \<open>delay\<close> multiplies its first argument by 1000; the product is the host's arithmetic on
  IEEE doubles, after its conversion of the operand to a number, and is taken as the
  parameter \<open>mul\<close>.
\<close>

definition delay :: "(val \<Rightarrow> val \<Rightarrow> val) \<Rightarrow> state \<Rightarrow> nat \<Rightarrow> val list \<Rightarrow> val \<times> state" where
  "delay mul st f as =
     (let args = slice as 1;
          timeout = mul (arg as 0) (Prim (JNum 1000));
          (fn, st1) = (if args \<noteq> [] then alloc st (Delayed_args f args)
                       else alloc st (Delayed_noargs f))
      in setTimeout st1 fn timeout)"

definition defer_op :: "(val \<Rightarrow> val \<Rightarrow> val) \<Rightarrow> state \<Rightarrow> nat \<Rightarrow> val list \<Rightarrow> val \<times> state" where
  "defer_op mul st f as =
     (if as \<noteq> [] then delay mul st f (update [Prim (JNum (1 / 100))] as)
      else delay mul st f [Prim (JNum (1 / 100))])"

section \<open>Calling\<close>

text \<open>
  The body of each function expression of the module. Every one of them ends in a single
  call whose completion it returns, so a body yields that call (\<open>Apply\<close>: the state, the
  callee, the receiver it is given and the arguments), or fails. \<open>c\<close> is the receiver the
  closure is called on and \<open>xs\<close> its \<open>arguments\<close>.
\<close>

datatype tailcall = Apply state val val "val list" | Fail completion state

fun closure_body :: "state \<Rightarrow> closure \<Rightarrow> val \<Rightarrow> val list \<Rightarrow> tailcall" where
  "closure_body st (Bind_args m context args) c xs =
     Apply st (Fn m) context (if xs \<noteq> [] then merge args xs else args)"
| "closure_body st (Bind_noargs m context) c xs =
     (if xs \<noteq> [] then Apply st (Fn m) context xs
      else Apply st (Fn m) context [])"
| "closure_body st (Listener_args m context args) c xs =
     (let event = arg xs 0;
          a = update [js_or event (window_event st)] args
      in Apply st (Fn m) context a)"
| "closure_body st (Listener_noargs m context) c xs =
     (let event = arg xs 0 in
      Apply st (Fn m) context [js_or event (window_event st)])"
| "closure_body st (Curried m args) c xs =
     Apply st (Fn m) (this_binding c) (if xs \<noteq> [] then merge args xs else args)"
| "closure_body st (Delayed_args m args) c xs =
     Apply st (Fn m) (Fn m) args"
| "closure_body st (Delayed_noargs m) c xs =
     Apply st (Fn m) (Fn m) []"
| "closure_body st (Wrapped m wrapper) c xs =
     (if wrapper = Undefined \<or> wrapper = Null then Fail TypeError st
      else
        let (bound, st1) = bind st m [this_binding c] in
        if xs \<noteq> [] then Apply st1 wrapper (this_binding c) (update [bound] xs)
        else Apply st1 wrapper (this_binding c) [bound])"
| "closure_body st (Methodized m) c xs =
     (if xs \<noteq> [] then Apply st (Fn m) Null (update [this_binding c] xs)
      else Apply st (Fn m) Undefined [this_binding c])"

text \<open>
  \<open>call n st fv c xs\<close> calls the value \<open>fv\<close> on the receiver \<open>c\<close> with the arguments
  \<open>xs\<close>; \<open>run\<close> carries out what a native function does. A callable may call itself for
  ever, so both take fuel: \<open>None\<close> is "no completion within \<open>n\<close> steps". Calling what is
  not a function is a \<open>TypeError\<close>.
\<close>

fun call :: "nat \<Rightarrow> state \<Rightarrow> val \<Rightarrow> val \<Rightarrow> val list \<Rightarrow> (completion \<times> state) option"
and run :: "nat \<Rightarrow> state \<Rightarrow> action \<Rightarrow> (completion \<times> state) option" where
  "call 0 st fv c xs = None"
| "call (Suc n) st fv c xs =
     (case fv of
        Fn r \<Rightarrow>
          if r < length (funs st) then
            (case code (funs st ! r) of
               Native beh \<Rightarrow> run n (enter st r c xs) (beh c xs)
             | Closure cl \<Rightarrow>
                 (case closure_body (enter st r c xs) cl c xs of
                    Apply st1 g c1 ys \<Rightarrow> call n st1 g c1 ys
                  | Fail e st1 \<Rightarrow> Some (e, st1)))
          else Some (TypeError, st)
      | _ \<Rightarrow> Some (TypeError, st))"
| "run 0 st a = None"
| "run (Suc n) st (Return v) = Some (Normal v, st)"
| "run (Suc n) st (Raise v) = Some (Throw v, st)"
| "run (Suc n) st (Invoke g c ys k) =
     (case call n st g c ys of
        None \<Rightarrow> None
      | Some (r, st1) \<Rightarrow> run n st1 (k r))"


section \<open>Reading the declared parameter names\<close>

text \<open>
  The characters the class \<open>\s\<close> of a regular expression matches (white space and line
  terminators) and the line terminators, which \<open>.\<close> does not match, within Latin-1.
\<close>

definition is_space :: "char \<Rightarrow> bool" where
  "is_space c =
     (c \<in> set [CHR 0x09, CHR 0x0A, CHR 0x0B, CHR 0x0C, CHR 0x0D, CHR 0x20, CHR 0xA0])"

definition is_newline :: "char \<Rightarrow> bool" where
  "is_newline c = (c = CHR 0x0A \<or> c = CHR 0x0D)"

text \<open>
  \<^verbatim>\<open>.match(/^[\s\(]*function[^(]*\(([^)]*)\)/)[1]\<close>
  Each starred class is followed by a character outside the class, so the greedy match is
  the only one: the longest run of white space and opening parentheses, the word
  \<open>function\<close>, everything up to the first opening parenthesis, and (the captured group)
  everything up to the first closing one. \<open>None\<close> is the failed match, on which \<open>[1]\<close>
  throws.
\<close>

definition match_declaration :: "string \<Rightarrow> string option" where
  "match_declaration s =
     (let s1 = dropWhile (\<lambda>c. is_space c \<or> c = CHR ''('') s in
      if take 8 s1 = ''function'' then
        (case dropWhile (\<lambda>c. c \<noteq> CHR ''('') (drop 8 s1) of
           [] \<Rightarrow> None
         | open_paren # s2 \<Rightarrow>
             (case dropWhile (\<lambda>c. c \<noteq> CHR '')'') s2 of
                [] \<Rightarrow> None
              | close_paren # s3 \<Rightarrow> Some (takeWhile (\<lambda>c. c \<noteq> CHR '')'') s2)))
      else None)"

text \<open>
  \<^verbatim>\<open>.replace(/\/\/.*?[\r\n]|\/\*(?:.|[\r\n])*?\*\//g, '')\<close>
  After \<open>//\<close> the lazy \<open>.*?\<close> stops at the first carriage return or line feed, which the
  match includes; after \<open>/*\<close> the lazy group stops at the first \<open>*/\<close>. Each function
  returns what follows the match, or \<open>None\<close> when the text ends before the match does.
\<close>

fun skip_line_comment :: "string \<Rightarrow> string option" where
  "skip_line_comment [] = None"
| "skip_line_comment (c # cs) = (if is_newline c then Some cs else skip_line_comment cs)"

fun skip_block_comment :: "string \<Rightarrow> string option" where
  "skip_block_comment (c # d # cs) =
     (if c = CHR ''*'' \<and> d = CHR ''/'' then Some cs else skip_block_comment (d # cs))"
| "skip_block_comment cs = None"

definition comment_end :: "string \<Rightarrow> string option" where
  "comment_end s =
     (if take 2 s = ''//'' then skip_line_comment (drop 2 s)
      else if take 2 s = ''/*'' then skip_block_comment (drop 2 s)
      else None)"

text \<open>
  The global replacement scans from the left: where a comment matches it is dropped and the
  scan goes on after it, otherwise the character is kept.
\<close>

function strip_comments :: "string \<Rightarrow> string" where
  "strip_comments [] = []"
| "strip_comments (c # cs) =
     (case comment_end (c # cs) of
        Some rest \<Rightarrow> strip_comments rest
      | None \<Rightarrow> c # strip_comments cs)"
  by pat_completeness auto
termination
proof (relation "measure length")
  show "wf (measure length)" by simp
next
  fix c :: char and cs rest :: string
  assume e: "comment_end (c # cs) = Some rest"
  have line: "skip_line_comment s = Some r \<Longrightarrow> length r < Suc (length s)" for s r
    by (induction s) (auto split: if_splits)
  have block: "skip_block_comment s = Some r \<Longrightarrow> length r < Suc (length s)" for s r
    by (induction s rule: skip_block_comment.induct) (auto split: if_splits)
  from e have "length rest < length (c # cs)"
    using line [of "drop 2 (c # cs)" rest] block [of "drop 2 (c # cs)" rest]
    by (auto simp: comment_end_def split: if_splits)
  then show "(rest, c # cs) \<in> measure length" by simp
next
  fix c :: char and cs :: string
  show "(cs, c # cs) \<in> measure length" by simp
qed

text \<open>\<^verbatim>\<open>.replace(/\s+/g, '')\<close> and \<^verbatim>\<open>.split(',')\<close>.\<close>

definition strip_spaces :: "string \<Rightarrow> string" where
  "strip_spaces s = filter (\<lambda>c. \<not> is_space c) s"

fun split_commas :: "string \<Rightarrow> string list" where
  "split_commas [] = [[]]"
| "split_commas (c # cs) =
     (if c = CHR '','' then [] # split_commas cs
      else (c # hd (split_commas cs)) # tl (split_commas cs))"

text \<open>
  \<open>argumentNames\<close>: \<open>None\<close> is the \<open>TypeError\<close> thrown when the text does not match.
  \<open>!names[0]\<close> holds of the empty string.
\<close>

definition argumentNames :: "state \<Rightarrow> nat \<Rightarrow> string list option \<times> state" where
  "argumentNames st f =
     (case match_declaration (toString st f) of
        None \<Rightarrow> (None, st)
      | Some params \<Rightarrow>
          let names = split_commas (strip_spaces (strip_comments params)) in
          (Some (if length names = 1 \<and> hd names = [] then [] else names), st))"

section \<open>Declarations as they are written\<close>

text \<open>
  The text of a declaration, to state what \<open>argumentNames\<close> returns for it: white space
  and opening parentheses, the word \<open>function\<close>, a name, and between parentheses the
  parameters, separated by commas, each a name with white space and comments before and
  after it. A line comment runs to its line terminator; a block comment holds no \<open>*/\<close>.
  \<open>filler_ok\<close> and \<open>param_ok\<close> add one condition that the language does not
  impose: no comment holds a closing parenthesis.
\<close>

datatype filler = Blank char | Line_comment string char | Block_comment string

fun render_filler :: "filler \<Rightarrow> string" where
  "render_filler (Blank c) = [c]"
| "render_filler (Line_comment s t) = ''//'' @ s @ [t]"
| "render_filler (Block_comment s) = ''/*'' @ s @ ''*/''"

fun has_close :: "string \<Rightarrow> bool" where
  "has_close (c # d # cs) = ((c = CHR ''*'' \<and> d = CHR ''/'') \<or> has_close (d # cs))"
| "has_close cs = False"

fun filler_ok :: "filler \<Rightarrow> bool" where
  "filler_ok (Blank c) = is_space c"
| "filler_ok (Line_comment s t) =
     (list_all (\<lambda>x. \<not> is_newline x \<and> x \<noteq> CHR '')'') s \<and> is_newline t)"
| "filler_ok (Block_comment s) = (\<not> has_close s \<and> list_all (\<lambda>x. x \<noteq> CHR '')'') s)"

definition render_padding :: "filler list \<Rightarrow> string" where
  "render_padding pad = concat (map render_filler pad)"

record param =
  pad_before :: "filler list"
  param_name :: string
  pad_after :: "filler list"

definition render_param :: "param \<Rightarrow> string" where
  "render_param p = render_padding (pad_before p) @ param_name p @ render_padding (pad_after p)"

definition param_ok :: "param \<Rightarrow> bool" where
  "param_ok p =
     (list_all filler_ok (pad_before p) \<and> list_all filler_ok (pad_after p) \<and> param_name p \<noteq> [] \<and>
      list_all (\<lambda>c. \<not> is_space c \<and> c \<noteq> CHR '','' \<and> c \<noteq> CHR ''/'' \<and> c \<noteq> CHR '')'') (param_name p))"

fun join_commas :: "string list \<Rightarrow> string" where
  "join_commas [] = []"
| "join_commas [s] = s"
| "join_commas (s # t # ss) = s @ '','' @ join_commas (t # ss)"

definition render_params :: "param list \<Rightarrow> string" where
  "render_params ps = join_commas (map render_param ps)"

definition declaration_text :: "string \<Rightarrow> string \<Rightarrow> string \<Rightarrow> string \<Rightarrow> string" where
  "declaration_text lead nm params body = lead @ ''function'' @ nm @ ''('' @ params @ '')'' @ body"

definition header_ok :: "string \<Rightarrow> string \<Rightarrow> bool" where
  "header_ok lead nm =
     (list_all (\<lambda>c. is_space c \<or> c = CHR ''('') lead \<and> list_all (\<lambda>c. c \<noteq> CHR ''('') nm)"

text \<open>The two replacements of \<open>argumentNames\<close>, one after the other.\<close>

definition stripped :: "string \<Rightarrow> string" where
  "stripped s = strip_spaces (strip_comments s)"

section \<open>What an operation leaves alone\<close>

text \<open>
  The function object \<open>f\<close> and its text are in \<open>st1\<close> what they were in \<open>st\<close>.
\<close>

definition unchanged :: "state \<Rightarrow> state \<Rightarrow> nat \<Rightarrow> bool" where
  "unchanged st st1 f = (funs st1 ! f = funs st ! f \<and> toString st1 f = toString st f)"

section \<open>The scheduler and the functions of the user\<close>


text \<open>
  \<open>entered_since st st1\<close> lists the functions entered from \<open>st\<close> to \<open>st1\<close>.
  \<open>call_edges n st fv c xs\<close> lists the calls made during \<open>call n st fv c xs\<close>, each as
  the function that makes it and the value it calls: it follows \<open>call\<close> equation by
  equation, a closure making the one call of its body and a function of the user (\<open>r\<close> in
  \<open>run_edges\<close>) each call of its action. \<open>accounted R Q E st st1\<close> relates the two: from
  \<open>st\<close> to \<open>st1\<close> the trace has only grown, every function entered is in \<open>R\<close> or is
  called in \<open>E\<close>, and every function that makes a call of \<open>E\<close> is in \<open>Q\<close> or was
  entered.
\<close>

definition entered_since :: "state \<Rightarrow> state \<Rightarrow> nat list" where
  "entered_since st st1 = map fst (drop (length (trace st)) (trace st1))"

fun call_edges :: "nat \<Rightarrow> state \<Rightarrow> val \<Rightarrow> val \<Rightarrow> val list \<Rightarrow> (nat \<times> val) list"
and run_edges :: "nat \<Rightarrow> state \<Rightarrow> nat \<Rightarrow> action \<Rightarrow> (nat \<times> val) list" where
  "call_edges 0 st fv c xs = []"
| "call_edges (Suc n) st fv c xs =
     (case fv of
        Fn r \<Rightarrow>
          if r < length (funs st) then
            (case code (funs st ! r) of
               Native beh \<Rightarrow> run_edges n (enter st r c xs) r (beh c xs)
             | Closure cl \<Rightarrow>
                 (case closure_body (enter st r c xs) cl c xs of
                    Apply st1 g c1 ys \<Rightarrow> (r, g) # call_edges n st1 g c1 ys
                  | Fail e st1 \<Rightarrow> []))
          else []
      | _ \<Rightarrow> [])"
| "run_edges 0 st r a = []"
| "run_edges (Suc n) st r (Return v) = []"
| "run_edges (Suc n) st r (Raise v) = []"
| "run_edges (Suc n) st r (Invoke g c ys k) =
     (r, g) # call_edges n st g c ys @
     (case call n st g c ys of
        None \<Rightarrow> []
      | Some (res, st1) \<Rightarrow> run_edges n st1 r (k res))"

definition accounted :: "nat set \<Rightarrow> nat set \<Rightarrow> (nat \<times> val) list \<Rightarrow> state \<Rightarrow> state \<Rightarrow> bool" where
  "accounted R Q E st st1 =
     (\<exists>L. trace st1 = trace st @ L \<and>
          fst ` set L \<subseteq> R \<union> {r. \<exists>q. (q, Fn r) \<in> set E} \<and>
          fst ` set E \<subseteq> Q \<union> fst ` set L)"

section \<open>A host to run the module on\<close>

text \<open>
  One function, \<open>function (a, b, c) { return this; }\<close> (it is not strict code, so its
  \<open>this\<close> is the binding of the receiver it is given), in a host whose current event is
  the object 5 and whose scheduler is idle; and a product for numbers.
\<close>

definition returns_this :: code where
  "returns_this = Native (\<lambda>c xs. Return (this_binding c))"

definition host0 :: state where
  "host0 =
     \<lparr>funs = [\<lparr>code = returns_this, methodized = Undefined\<rparr>],
      toString = (\<lambda>r. ''function (a, b, c) { return this; }''),
      window_event = Obj 5, timers = [], next_timer = 0, trace = []\<rparr>"

text \<open>
  A second host, with three wrappers beside that function: one returns without invoking
  anything, one invokes its first argument with the arguments that follow it, and one
  invokes its second argument. In a third host the wrapper invokes the function 0 itself.
\<close>

definition ignores_original :: code where
  "ignores_original = Native (\<lambda>c xs. Return (Prim (JStr ''skipped'')))"

definition proceeds :: code where
  "proceeds =
     Native (\<lambda>c xs. Invoke (arg xs 0) Undefined (slice xs 1)
       (\<lambda>r. case r of Normal v \<Rightarrow> Return v | Throw v \<Rightarrow> Raise v | TypeError \<Rightarrow> Raise Undefined))"

definition invokes_second :: code where
  "invokes_second =
     Native (\<lambda>c xs. Invoke (arg xs 1) Undefined []
       (\<lambda>r. case r of Normal v \<Rightarrow> Return v | Throw v \<Rightarrow> Raise v | TypeError \<Rightarrow> Raise Undefined))"

definition host1 :: state where
  "host1 =
     \<lparr>funs = [\<lparr>code = returns_this, methodized = Undefined\<rparr>,
              \<lparr>code = ignores_original, methodized = Undefined\<rparr>,
              \<lparr>code = proceeds, methodized = Undefined\<rparr>,
              \<lparr>code = invokes_second, methodized = Undefined\<rparr>],
      toString = (\<lambda>r. ''function (a, b, c) { return this; }''),
      window_event = Undefined, timers = [], next_timer = 0, trace = []\<rparr>"

definition calls_original_directly :: code where
  "calls_original_directly =
     Native (\<lambda>c xs. Invoke (Fn 0) Undefined [] (\<lambda>r. Return (Prim (JStr ''done''))))"

definition host2 :: state where
  "host2 =
     \<lparr>funs = [\<lparr>code = returns_this, methodized = Undefined\<rparr>,
              \<lparr>code = calls_original_directly, methodized = Undefined\<rparr>],
      toString = (\<lambda>r. ''function (a, b, c) { return this; }''),
      window_event = Undefined, timers = [], next_timer = 0, trace = []\<rparr>"

definition mul_num :: "val \<Rightarrow> val \<Rightarrow> val" where
  "mul_num a b =
     (case (a, b) of
        (Prim (JNum x), Prim (JNum y)) \<Rightarrow> Prim (JNum (x * y))
      | _ \<Rightarrow> Prim JNaN)"

section \<open>Argument lists: what the helpers compute\<close>

lemma update_loop_inv:
  "length array = m + length args \<Longrightarrow> k \<le> length args \<Longrightarrow>
   drop (m + k) array = drop k args \<Longrightarrow>
   update_loop array m args k = take m array @ args"
proof (induction k arbitrary: array)
  case 0
  then have "drop m array = args" by simp
  then have "take m array @ args = array"
    using append_take_drop_id [of m array] by simp
  then show ?case by simp
next
  case (Suc k)
  let ?a = "array[m + k := args ! k]"
  have k: "k < length args" using Suc.prems by simp
  have inr: "m + k < length array" using Suc.prems by simp
  have d: "drop (m + k) ?a = drop k args"
  proof -
    have "drop (m + k) ?a = args ! k # drop (Suc (m + k)) array"
      using inr by (simp add: upd_conv_take_nth_drop)
    also have "\<dots> = args ! k # drop (Suc k) args"
      using Suc.prems(3) by simp
    also have "\<dots> = drop k args"
      using k by (simp add: Cons_nth_drop_Suc)
    finally show ?thesis .
  qed
  have "update_loop ?a m args k = take m ?a @ args"
    using Suc.prems k d by (intro Suc.IH) simp_all
  then show ?case
    using inr k by (simp add: put_def arg_def)
qed

lemma update_append: "update array args = array @ args"
proof (cases args rule: rev_cases)
  case Nil
  then show ?thesis by (simp add: update_def)
next
  case (snoc ys y)
  let ?m = "length array"
  let ?a = "array @ replicate (length ys) Undefined @ [y]"
  have "update_loop ?a ?m args (length ys) = take ?m ?a @ args"
    using snoc by (intro update_loop_inv) simp_all
  then show ?thesis
    using snoc by (simp add: update_def put_def arg_def)
qed

lemma merge_append: "merge array args = array @ args"
  by (simp add: merge_def slice_def update_append)

section \<open>Calls of the closures\<close>

lemma call_closure:
  "r < length (funs st) \<Longrightarrow> code (funs st ! r) = Closure cl \<Longrightarrow>
   call (Suc n) st (Fn r) c xs =
     (case closure_body (enter st r c xs) cl c xs of
        Apply st1 g c1 ys \<Rightarrow> call n st1 g c1 ys
      | Fail e st1 \<Rightarrow> Some (e, st1))"
  by simp

lemma call_native:
  "r < length (funs st) \<Longrightarrow> code (funs st ! r) = Native beh \<Longrightarrow>
   call (Suc n) st (Fn r) c xs = run n (enter st r c xs) (beh c xs)"
  by simp

lemma this_binding_object: "is_object c \<Longrightarrow> this_binding c = c"
  by (cases c) simp_all

lemma this_binding_defined: "this_binding c \<noteq> Undefined"
  by (cases c) (simp_all add: window_def)

section \<open>defer\<close>

text \<open>
  C7. \<open>defer\<close> forwards to \<open>delay\<close> with the delay 0.01 in front of its own arguments,
  which it passes on unchanged, and returns what \<open>delay\<close> returns: the same token and the
  same state of the scheduler.
\<close>

theorem defer_forwards_to_delay:
  "defer_op mul st f xs = delay mul st f (Prim (JNum (1 / 100)) # xs)"
  by (cases xs) (simp_all add: defer_op_def update_append)

theorem defer_forwards_to_delay_witness:
  "defer_op mul_num host0 0 [Prim (JStr ''a'')] =
     (token 0,
      host0\<lparr>funs := funs host0 @
               [\<lparr>code = Closure (Delayed_args 0 [Prim (JStr ''a'')]), methodized = Undefined\<rparr>],
            timers := [(0, Fn 1, Prim (JNum 10))], next_timer := 1\<rparr>)"
  using defer_forwards_to_delay [of mul_num host0 0 "[Prim (JStr ''a'')]"]
  by (simp add: delay_def slice_def arg_def alloc_def setTimeout_def host0_def mul_num_def)

section \<open>bind\<close>

text \<open>
  C1, as the claim states it, fails where \<open>bind\<close> is given an undefined context and no
  preset argument: the guard of its first line returns the receiver itself, so the callable
  produced is \<open>f\<close>, and invoking it on the object 1 runs \<open>f\<close> on the object 1, not on
  the undefined context that was bound.
\<close>

theorem bind_undefined_counterexample:
  "bind host0 0 [Undefined] = (Fn 0, host0) \<and>
   call 2 host0 (Fn 0) (Obj 1) [] = Some (Normal (Obj 1), host0\<lparr>trace := [(0, Obj 1, [])]\<rparr>) \<and>
   call 2 host0 (Fn 0) (Obj 1) [] \<noteq> call 2 host0 (Fn 0) Undefined []"
  by (simp add: bind_def isUndefined_def arg_def host0_def returns_this_def enter_def numeral_2_eq_2)

text \<open>
  C1, amended. With a preset argument, or with a context other than undefined, \<open>bind\<close>
  returns a new callable \<open>b\<close>; in every state where \<open>b\<close> is that callable, invoking it on
  any receiver \<open>c\<close> with arguments \<open>xs\<close> is, after the entry into \<open>b\<close>, the invocation of
  \<open>f\<close> on the context \<open>ctx\<close> with the preset arguments followed by \<open>xs\<close>.
\<close>

theorem bind_invokes:
  assumes "ps \<noteq> [] \<or> ctx \<noteq> Undefined"
  shows "fst (bind st f (ctx # ps)) = Fn (length (funs st)) \<and>
         (bind st f (ctx # ps) = (Fn b, st1) \<and>
          b < length (funs st2) \<and> code (funs st2 ! b) = code (funs st1 ! b) \<longrightarrow>
            b = length (funs st) \<and>
            call (Suc n) st2 (Fn b) c xs = call n (enter st2 b c xs) (Fn f) ctx (ps @ xs))"
  using assms
  by (auto simp: bind_def isUndefined_def arg_def slice_def alloc_def merge_append split: if_splits)

theorem bind_invokes_witness:
  "bind host0 0 [Obj 7, Prim (JNum 1)] =
     (Fn 1, host0\<lparr>funs := funs host0 @
        [\<lparr>code = Closure (Bind_args 0 (Obj 7) [Prim (JNum 1)]), methodized = Undefined\<rparr>]\<rparr>) \<and>
   call 3 (snd (bind host0 0 [Obj 7, Prim (JNum 1)])) (Fn 1) (Obj 9) [Prim (JNum 2)] =
     Some (Normal (Obj 7),
       (snd (bind host0 0 [Obj 7, Prim (JNum 1)]))
         \<lparr>trace := [(1, Obj 9, [Prim (JNum 2)]), (0, Obj 7, [Prim (JNum 1), Prim (JNum 2)])]\<rparr>)"
proof -
  let ?st1 = "snd (bind host0 0 [Obj 7, Prim (JNum 1)])"
  have b: "bind host0 0 [Obj 7, Prim (JNum 1)] = (Fn 1, ?st1)"
    by (simp add: bind_def isUndefined_def arg_def slice_def alloc_def host0_def)
  have "call (Suc 2) ?st1 (Fn 1) (Obj 9) [Prim (JNum 2)] =
        call 2 (enter ?st1 1 (Obj 9) [Prim (JNum 2)]) (Fn 0) (Obj 7) ([Prim (JNum 1)] @ [Prim (JNum 2)])"
    using bind_invokes [of "[Prim (JNum 1)]" "Obj 7" host0 0 1 ?st1 ?st1 2 "Obj 9" "[Prim (JNum 2)]"] b
    by (simp add: bind_def isUndefined_def arg_def slice_def alloc_def host0_def)
  then show ?thesis
    by (simp add: bind_def isUndefined_def arg_def slice_def alloc_def host0_def
        returns_this_def enter_def numeral_2_eq_2 numeral_3_eq_3)
qed

text \<open>
  C10. On a function \<open>f\<close> of the state, \<open>bind\<close> returns \<open>f\<close> itself, and the state as it
  was, exactly when it is called with no argument or with the undefined value alone. With
  an undefined context and a preset argument it makes a new callable, which invokes \<open>f\<close>
  on the undefined context with the preset arguments followed by the arguments of the
  invocation.
\<close>

theorem bind_returns_self_iff:
  "valid_fn st f \<Longrightarrow>
   ((bind st f as = (Fn f, st)) = (as = [] \<or> as = [Undefined])) \<and>
   ((fst (bind st f as) = Fn f) = (as = [] \<or> as = [Undefined])) \<and>
   fst (bind st f (Undefined # x # ps)) = Fn (length (funs st)) \<and>
   call (Suc n) (snd (bind st f (Undefined # x # ps))) (Fn (length (funs st))) c xs =
     call n (enter (snd (bind st f (Undefined # x # ps))) (length (funs st)) c xs)
       (Fn f) Undefined (x # ps @ xs)"
proof -
  assume v: "valid_fn st f"
  have small: "(length as < 2 \<and> arg as 0 = Undefined) = (as = [] \<or> as = [Undefined])"
    by (cases as; cases "tl as") (auto simp: arg_def)
  have a: "(fst (bind st f as) = Fn f) = (as = [] \<or> as = [Undefined])"
    using v small by (auto simp: bind_def isUndefined_def alloc_def valid_fn_def Let_def)
  have b: "(bind st f as = (Fn f, st)) = (as = [] \<or> as = [Undefined])"
    using a by (auto simp: bind_def isUndefined_def arg_def)
  have c: "fst (bind st f (Undefined # x # ps)) = Fn (length (funs st))"
    by (simp add: bind_def slice_def alloc_def arg_def)
  have d: "call (Suc n) (snd (bind st f (Undefined # x # ps))) (Fn (length (funs st))) c xs =
     call n (enter (snd (bind st f (Undefined # x # ps))) (length (funs st)) c xs)
       (Fn f) Undefined (x # ps @ xs)"
    by (simp add: bind_def slice_def alloc_def arg_def merge_append)
  show ?thesis using a b c d by blast
qed

theorem bind_returns_self_iff_witness:
  "valid_fn host0 0 \<and> bind host0 0 [] = (Fn 0, host0) \<and> bind host0 0 [Undefined] = (Fn 0, host0) \<and>
   fst (bind host0 0 [Undefined, Obj 3]) = Fn 1 \<and>
   call 3 (snd (bind host0 0 [Undefined, Obj 3])) (Fn 1) (Obj 9) [Obj 4] =
     Some (Normal window,
       (snd (bind host0 0 [Undefined, Obj 3]))
          \<lparr>trace := [(1, Obj 9, [Obj 4]), (0, Undefined, [Obj 3, Obj 4])]\<rparr>)"
proof -
  have v: "valid_fn host0 0" by (simp add: valid_fn_def host0_def)
  note t = bind_returns_self_iff [OF v, of _ "Obj 3" "[]" 2 "Obj 9" "[Obj 4]"]
  have l: "length (funs host0) = 1" by (simp add: host0_def)
  have 1: "bind host0 0 [] = (Fn 0, host0)" using t [of "[]"] by simp
  have 2: "bind host0 0 [Undefined] = (Fn 0, host0)" using t [of "[Undefined]"] by simp
  have 3: "fst (bind host0 0 [Undefined, Obj 3]) = Fn 1" using t [of "[]"] l by simp
  have "call 3 (snd (bind host0 0 [Undefined, Obj 3])) (Fn 1) (Obj 9) [Obj 4] =
        call 2 (enter (snd (bind host0 0 [Undefined, Obj 3])) 1 (Obj 9) [Obj 4]) (Fn 0) Undefined [Obj 3, Obj 4]"
    using t [of "[]"] l by (simp add: numeral_3_eq_3)
  then have 4: "call 3 (snd (bind host0 0 [Undefined, Obj 3])) (Fn 1) (Obj 9) [Obj 4] =
     Some (Normal window,
       (snd (bind host0 0 [Undefined, Obj 3]))
          \<lparr>trace := [(1, Obj 9, [Obj 4]), (0, Undefined, [Obj 3, Obj 4])]\<rparr>)"
    by (simp add: bind_def isUndefined_def arg_def slice_def alloc_def host0_def
        returns_this_def enter_def numeral_2_eq_2)
  show ?thesis using v 1 2 3 4 by simp
qed

section \<open>curry\<close>

text \<open>
  C4. Without arguments \<open>curry\<close> returns its receiver and leaves the state alone. With
  preset arguments \<open>ps\<close> it makes a new callable \<open>b\<close>; invoking \<open>b\<close> on a receiver \<open>c\<close>
  with arguments \<open>xs\<close> invokes \<open>f\<close> with \<open>ps\<close> followed by \<open>xs\<close> on the context of
  that invocation, the value of \<open>this\<close> in it: \<open>this_binding c\<close>, which is \<open>c\<close> itself
  for every object. The witness is \<open>curry(1, 2)\<close> invoked with \<open>(3)\<close> on the object 9.
\<close>

theorem curry_applies:
  "curry_op st f [] = (Fn f, st) \<and>
   (ps \<noteq> [] \<and> curry_op st f ps = (Fn b, st1) \<and>
    b < length (funs st2) \<and> code (funs st2 ! b) = code (funs st1 ! b) \<longrightarrow>
      b = length (funs st) \<and>
      call (Suc n) st2 (Fn b) c xs =
        call n (enter st2 b c xs) (Fn f) (this_binding c) (ps @ xs)) \<and>
   (is_object c \<longrightarrow> this_binding c = c) \<and>
   (ps \<noteq> [] \<longrightarrow> fst (curry_op st f ps) = Fn (length (funs st)))"
  by (auto simp: curry_op_def slice_def alloc_def merge_append this_binding_object)

theorem curry_applies_witness:
  "curry_op host0 0 [] = (Fn 0, host0) \<and>
   curry_op host0 0 [Prim (JNum 1), Prim (JNum 2)] =
     (Fn 1, host0\<lparr>funs := funs host0 @
        [\<lparr>code = Closure (Curried 0 [Prim (JNum 1), Prim (JNum 2)]), methodized = Undefined\<rparr>]\<rparr>) \<and>
   call 3 (snd (curry_op host0 0 [Prim (JNum 1), Prim (JNum 2)])) (Fn 1) (Obj 9) [Prim (JNum 3)] =
     Some (Normal (Obj 9),
       (snd (curry_op host0 0 [Prim (JNum 1), Prim (JNum 2)]))
         \<lparr>trace := [(1, Obj 9, [Prim (JNum 3)]),
                    (0, Obj 9, [Prim (JNum 1), Prim (JNum 2), Prim (JNum 3)])]\<rparr>)"
proof -
  let ?ps = "[Prim (JNum 1), Prim (JNum 2)]"
  let ?st1 = "snd (curry_op host0 0 ?ps)"
  have b: "curry_op host0 0 ?ps = (Fn 1, ?st1)"
    by (simp add: curry_op_def slice_def alloc_def host0_def)
  note t = curry_applies [of host0 0 ?ps 1 ?st1 ?st1 2 "Obj 9" "[Prim (JNum 3)]"]
  have 1: "curry_op host0 0 [] = (Fn 0, host0)" using t by simp
  have "call (Suc 2) ?st1 (Fn 1) (Obj 9) [Prim (JNum 3)] =
        call 2 (enter ?st1 1 (Obj 9) [Prim (JNum 3)]) (Fn 0) (this_binding (Obj 9)) (?ps @ [Prim (JNum 3)])"
    using t b by (simp add: curry_op_def slice_def alloc_def host0_def)
  then have 2: "call 3 ?st1 (Fn 1) (Obj 9) [Prim (JNum 3)] =
     Some (Normal (Obj 9),
       ?st1\<lparr>trace := [(1, Obj 9, [Prim (JNum 3)]),
                    (0, Obj 9, [Prim (JNum 1), Prim (JNum 2), Prim (JNum 3)])]\<rparr>)"
    by (simp add: curry_op_def slice_def alloc_def host0_def
        returns_this_def enter_def numeral_2_eq_2 numeral_3_eq_3)
  show ?thesis using 1 2 by (simp add: curry_op_def slice_def alloc_def host0_def)
qed

section \<open>bindAsEventListener\<close>

text \<open>
  C8, as the claim states it, fails on an event that is present and falsy: the closure
  reads \<open>event || window.event\<close>, so the incoming value 0 is replaced by the ambient
  event (the object 5), and \<open>f\<close> is not invoked with 0 in front of the preset arguments.
\<close>

theorem listener_falsy_event_counterexample:
  "fst (bindAsEventListener host0 0 [Obj 7, Obj 3]) = Fn 1 \<and>
   window_event host0 = Obj 5 \<and>
   call 3 (snd (bindAsEventListener host0 0 [Obj 7, Obj 3])) (Fn 1) Undefined [Prim (JNum 0)] =
     Some (Normal (Obj 7),
       (snd (bindAsEventListener host0 0 [Obj 7, Obj 3]))
         \<lparr>trace := [(1, Undefined, [Prim (JNum 0)]), (0, Obj 7, [Obj 5, Obj 3])]\<rparr>) \<and>
   call 3 (snd (bindAsEventListener host0 0 [Obj 7, Obj 3])) (Fn 1) Undefined [Prim (JNum 0)] \<noteq>
     call 2 (enter (snd (bindAsEventListener host0 0 [Obj 7, Obj 3])) 1 Undefined [Prim (JNum 0)])
       (Fn 0) (Obj 7) [Prim (JNum 0), Obj 3]"
  by (simp add: bindAsEventListener_def slice_def arg_def alloc_def host0_def update_append js_or_def
        returns_this_def enter_def numeral_2_eq_2 numeral_3_eq_3)

text \<open>
  C8, amended. \<open>bindAsEventListener\<close> returns a new callable, which invokes \<open>f\<close> on the context \<open>ctx\<close> with one value in front
  of the preset arguments: the incoming event when that is truthy, and otherwise (the
  event absent, undefined, null, false, zero, not a number or the empty string) the
  ambient \<open>window.event\<close> at the time of the invocation.
\<close>

theorem listener_invokes:
  "fst (bindAsEventListener st f (ctx # ps)) = Fn (length (funs st)) \<and>
   (bindAsEventListener st f (ctx # ps) = (Fn b, st1) \<and>
    b < length (funs st2) \<and> code (funs st2 ! b) = code (funs st1 ! b) \<longrightarrow>
      b = length (funs st) \<and>
      call (Suc n) st2 (Fn b) c xs =
        call n (enter st2 b c xs) (Fn f) ctx
          ((if truthy (arg xs 0) then arg xs 0 else window_event st2) # ps))"
  by (auto simp: bindAsEventListener_def arg_def slice_def alloc_def update_append js_or_def enter_def
      split: if_splits)

theorem listener_invokes_witness:
  "call 3 (snd (bindAsEventListener host0 0 [Obj 7, Obj 3])) (Fn 1) Undefined [Obj 8] =
     Some (Normal (Obj 7),
       (snd (bindAsEventListener host0 0 [Obj 7, Obj 3]))
         \<lparr>trace := [(1, Undefined, [Obj 8]), (0, Obj 7, [Obj 8, Obj 3])]\<rparr>) \<and>
   call 3 (snd (bindAsEventListener host0 0 [Obj 7, Obj 3])) (Fn 1) Undefined [] =
     Some (Normal (Obj 7),
       (snd (bindAsEventListener host0 0 [Obj 7, Obj 3]))
         \<lparr>trace := [(1, Undefined, []), (0, Obj 7, [Obj 5, Obj 3])]\<rparr>)"
proof -
  let ?st1 = "snd (bindAsEventListener host0 0 [Obj 7, Obj 3])"
  have b: "bindAsEventListener host0 0 [Obj 7, Obj 3] = (Fn 1, ?st1)"
    by (simp add: bindAsEventListener_def slice_def arg_def alloc_def host0_def)
  have l: "1 < length (funs ?st1)"
    by (simp add: bindAsEventListener_def slice_def arg_def alloc_def host0_def)
  note t = listener_invokes [of host0 0 "Obj 7" "[Obj 3]" 1 ?st1 ?st1 2 Undefined]
  have "call (Suc 2) ?st1 (Fn 1) Undefined [Obj 8] =
        call 2 (enter ?st1 1 Undefined [Obj 8]) (Fn 0) (Obj 7)
          ((if truthy (arg [Obj 8] 0) then arg [Obj 8] 0 else window_event ?st1) # [Obj 3])"
    using t [of "[Obj 8]"] b l by blast
  then have 1: "call 3 ?st1 (Fn 1) Undefined [Obj 8] =
     Some (Normal (Obj 7), ?st1\<lparr>trace := [(1, Undefined, [Obj 8]), (0, Obj 7, [Obj 8, Obj 3])]\<rparr>)"
    by (simp add: bindAsEventListener_def slice_def arg_def alloc_def host0_def
        returns_this_def enter_def numeral_2_eq_2 numeral_3_eq_3)
  have "call (Suc 2) ?st1 (Fn 1) Undefined [] =
        call 2 (enter ?st1 1 Undefined []) (Fn 0) (Obj 7)
          ((if truthy (arg [] 0) then arg [] 0 else window_event ?st1) # [Obj 3])"
    using t [of "[]"] b l by blast
  then have 2: "call 3 ?st1 (Fn 1) Undefined [] =
     Some (Normal (Obj 7), ?st1\<lparr>trace := [(1, Undefined, []), (0, Obj 7, [Obj 5, Obj 3])]\<rparr>)"
    by (simp add: bindAsEventListener_def slice_def arg_def alloc_def host0_def
        returns_this_def enter_def numeral_2_eq_2 numeral_3_eq_3)
  show ?thesis using 1 2 by simp
qed

section \<open>methodize\<close>

lemma methodize_fresh:
  "\<not> truthy (methodized (funs st ! f)) \<Longrightarrow>
   methodize st f =
     (Fn (length (funs st)),
      st\<lparr>funs := (funs st @ [\<lparr>code = Closure (Methodized f), methodized = Undefined\<rparr>])
                  [f := ((funs st @ [\<lparr>code = Closure (Methodized f), methodized = Undefined\<rparr>]) ! f)
                          \<lparr>methodized := Fn (length (funs st))\<rparr>]\<rparr>)"
  by (simp add: methodize_def alloc_def)

lemma methodize_cached_slot:
  "truthy (methodized (funs st ! f)) \<Longrightarrow> methodize st f = (methodized (funs st ! f), st)"
  by (simp add: methodize_def)

text \<open>
  C2. A second \<open>methodize\<close> on the same function returns the very value the first one
  returned and changes nothing. When the cache was empty that value is a new callable
  \<open>b\<close>, and invoking \<open>b\<close> on a receiver \<open>r\<close> with arguments \<open>xs\<close> invokes \<open>f\<close> with
  the receiver (as \<open>this\<close> holds it: \<open>r\<close> itself when it is an object) in front of \<open>xs\<close>,
  on a neutral context: null, or undefined when \<open>xs\<close> is empty.
\<close>

theorem methodize_cached:
  assumes "valid_fn st f" and "methodize st f = (m, st1)"
  shows "methodize st1 f = (m, st1) \<and>
         (\<not> truthy (methodized (funs st ! f)) \<and> b = length (funs st) \<and>
          b < length (funs st2) \<and> code (funs st2 ! b) = code (funs st1 ! b) \<longrightarrow>
            m = Fn b \<and>
            call (Suc n) st2 (Fn b) r xs =
              call n (enter st2 b r xs) (Fn f) (if xs = [] then Undefined else Null)
                (this_binding r # xs)) \<and>
         (is_object r \<longrightarrow> this_binding r = r)"
proof (cases "truthy (methodized (funs st ! f))")
  case True
  then have "m = methodized (funs st ! f)" and "st1 = st"
    using assms(2) by (auto simp: methodize_cached_slot)
  then show ?thesis
    using True by (simp add: methodize_cached_slot this_binding_object)
next
  case False
  let ?new = "\<lparr>code = Closure (Methodized f), methodized = Undefined\<rparr>"
  have f: "f < length (funs st)" using assms(1) by (simp add: valid_fn_def)
  have m: "m = Fn (length (funs st))"
    and st1: "st1 = st\<lparr>funs := (funs st @ [?new])[f := ((funs st @ [?new]) ! f)\<lparr>methodized := m\<rparr>]\<rparr>"
    using assms(2) methodize_fresh [OF False] by auto
  have slot: "methodized (funs st1 ! f) = m"
    using f st1 by simp
  have again: "methodize st1 f = (m, st1)"
    using slot m by (simp add: methodize_cached_slot)
  have cd: "code (funs st1 ! length (funs st)) = Closure (Methodized f)"
    using f st1 by (simp add: nth_append)
  show ?thesis
    using again m cd by (auto simp: update_append this_binding_object)
qed

theorem methodize_cached_witness:
  "methodize host0 0 = (Fn 1, snd (methodize host0 0)) \<and>
   methodize (snd (methodize host0 0)) 0 = (Fn 1, snd (methodize host0 0)) \<and>
   call 3 (snd (methodize host0 0)) (Fn 1) (Obj 9) [Obj 4] =
     Some (Normal window,
       (snd (methodize host0 0))\<lparr>trace := [(1, Obj 9, [Obj 4]), (0, Null, [Obj 9, Obj 4])]\<rparr>)"
proof -
  let ?st1 = "snd (methodize host0 0)"
  have v: "valid_fn host0 0" by (simp add: valid_fn_def host0_def)
  have e: "methodize host0 0 = (Fn 1, ?st1)"
    by (simp add: methodize_def alloc_def host0_def)
  have l: "1 < length (funs ?st1)"
    by (simp add: methodize_def alloc_def host0_def)
  note t = methodize_cached [OF v e, of 1 ?st1 2 "Obj 9" "[Obj 4]"]
  have 1: "methodize ?st1 0 = (Fn 1, ?st1)" using t by blast
  have "call (Suc 2) ?st1 (Fn 1) (Obj 9) [Obj 4] =
        call 2 (enter ?st1 1 (Obj 9) [Obj 4]) (Fn 0) Null [this_binding (Obj 9), Obj 4]"
    using t l by (simp add: host0_def)
  then have 2: "call 3 ?st1 (Fn 1) (Obj 9) [Obj 4] =
     Some (Normal window, ?st1\<lparr>trace := [(1, Obj 9, [Obj 4]), (0, Null, [Obj 9, Obj 4])]\<rparr>)"
    by (simp add: methodize_def alloc_def host0_def returns_this_def enter_def
        numeral_2_eq_2 numeral_3_eq_3)
  show ?thesis using e 1 2 by simp
qed

section \<open>The operations and their receiver\<close>

text \<open>
  C3, as the claim states it, fails for \<open>methodize\<close>: it stores the callable it makes in
  the property \<open>_methodized\<close> of its receiver.
\<close>

theorem methodize_writes_counterexample:
  "methodized (funs host0 ! 0) = Undefined \<and>
   methodized (funs (snd (methodize host0 0)) ! 0) = Fn 1 \<and>
   \<not> unchanged host0 (snd (methodize host0 0)) 0"
  by (simp add: methodize_def alloc_def host0_def unchanged_def)

lemma alloc_unchanged: "valid_fn st f \<Longrightarrow> unchanged st (snd (alloc st cl)) f"
  by (simp add: alloc_def unchanged_def valid_fn_def nth_append)

lemma delay_unchanged: "valid_fn st f \<Longrightarrow> unchanged st (snd (delay mul st g as)) f"
  by (simp add: delay_def setTimeout_def alloc_def unchanged_def valid_fn_def nth_append Let_def)

text \<open>
  C3, amended. \<open>argumentNames\<close>, \<open>bind\<close>, \<open>bindAsEventListener\<close>, \<open>curry\<close>,
  \<open>delay\<close>, \<open>defer\<close> and \<open>wrap\<close> leave their receiver as it was. \<open>methodize\<close> leaves
  the code and the text of its receiver as they were and writes one property of it, the
  cache \<open>_methodized\<close>, which then holds the value returned; when the cache is already
  set it writes nothing.
\<close>

theorem operations_frame:
  assumes "valid_fn st f"
  shows "snd (argumentNames st f) = st \<and>
         unchanged st (snd (bind st f as)) f \<and>
         unchanged st (snd (bindAsEventListener st f as)) f \<and>
         unchanged st (snd (curry_op st f as)) f \<and>
         unchanged st (snd (delay mul st f as)) f \<and>
         unchanged st (snd (defer_op mul st f as)) f \<and>
         unchanged st (snd (wrap st f as)) f \<and>
         code (funs (snd (methodize st f)) ! f) = code (funs st ! f) \<and>
         toString (snd (methodize st f)) f = toString st f \<and>
         methodized (funs (snd (methodize st f)) ! f) = fst (methodize st f) \<and>
         (truthy (methodized (funs st ! f)) \<longrightarrow> snd (methodize st f) = st)"
proof -
  have same: "unchanged st st f" by (simp add: unchanged_def)
  have 1: "snd (argumentNames st f) = st"
    by (simp add: argumentNames_def Let_def split: option.split)
  have 2: "unchanged st (snd (bind st f as)) f"
    using assms same by (simp add: bind_def Let_def alloc_unchanged)
  have 3: "unchanged st (snd (bindAsEventListener st f as)) f"
    using assms by (simp add: bindAsEventListener_def Let_def alloc_unchanged)
  have 4: "unchanged st (snd (curry_op st f as)) f"
    using assms same by (simp add: curry_op_def alloc_unchanged)
  have 5: "unchanged st (snd (delay mul st f as)) f"
    using assms by (rule delay_unchanged)
  have 6: "unchanged st (snd (defer_op mul st f as)) f"
    using assms by (simp add: defer_op_def delay_unchanged)
  have 7: "unchanged st (snd (wrap st f as)) f"
    using assms by (simp add: wrap_def alloc_unchanged)
  have 8: "code (funs (snd (methodize st f)) ! f) = code (funs st ! f) \<and>
         toString (snd (methodize st f)) f = toString st f \<and>
         methodized (funs (snd (methodize st f)) ! f) = fst (methodize st f) \<and>
         (truthy (methodized (funs st ! f)) \<longrightarrow> snd (methodize st f) = st)"
    using assms by (simp add: methodize_def alloc_def valid_fn_def nth_append)
  show ?thesis using 1 2 3 4 5 6 7 8 by simp
qed

theorem operations_frame_witness:
  "valid_fn host0 0 \<and>
   snd (argumentNames host0 0) = host0 \<and>
   unchanged host0 (snd (bind host0 0 [Obj 7])) 0 \<and>
   unchanged host0 (snd (bindAsEventListener host0 0 [Obj 7])) 0 \<and>
   unchanged host0 (snd (curry_op host0 0 [Obj 7])) 0 \<and>
   unchanged host0 (snd (delay mul_num host0 0 [Prim (JNum 1)])) 0 \<and>
   unchanged host0 (snd (defer_op mul_num host0 0 [])) 0 \<and>
   unchanged host0 (snd (wrap host0 0 [Fn 0])) 0 \<and>
   code (funs (snd (methodize host0 0)) ! 0) = returns_this \<and>
   methodized (funs (snd (methodize host0 0)) ! 0) = Fn 1"
proof -
  have v: "valid_fn host0 0" by (simp add: valid_fn_def host0_def)
  have m: "fst (methodize host0 0) = Fn 1" "code (funs host0 ! 0) = returns_this"
    by (simp_all add: methodize_def alloc_def host0_def)
  show ?thesis
    using v m operations_frame [OF v, of "[Obj 7]" mul_num]
      operations_frame [OF v, of "[Prim (JNum 1)]" mul_num]
      operations_frame [OF v, of "[]" mul_num]
      operations_frame [OF v, of "[Fn 0]" mul_num]
    by simp
qed

section \<open>delay\<close>







section \<open>wrap\<close>

lemma closure_body_trace:
  "closure_body st cl c xs = Apply st1 g c1 ys \<Longrightarrow> trace st1 = trace st"
  by (cases cl) (auto simp: bind_def alloc_def Let_def split: if_splits prod.splits)

lemma accounted_native:
  assumes "accounted {} {r} E (enter st r c xs) st1"
  shows "accounted {r} {} E st st1"
proof -
  from assms obtain L where L: "trace st1 = trace (enter st r c xs) @ L"
    "fst ` set L \<subseteq> {r. \<exists>q. (q, Fn r) \<in> set E}" "fst ` set E \<subseteq> {r} \<union> fst ` set L"
    by (auto simp: accounted_def)
  have "trace st1 = trace st @ ((r, c, xs) # L)" using L(1) by (simp add: enter_def)
  moreover have "fst ` set ((r, c, xs) # L) \<subseteq> {r} \<union> {r. \<exists>q. (q, Fn r) \<in> set E}"
    using L(2) by auto
  moreover have "fst ` set E \<subseteq> {} \<union> fst ` set ((r, c, xs) # L)"
    using L(3) by auto
  ultimately show ?thesis unfolding accounted_def by blast
qed

lemma accounted_closure:
  assumes "trace st2 = trace st @ [(r, c, xs)]"
    and "accounted {r'. g = Fn r'} {} E st2 st1"
  shows "accounted {r} {} ((r, g) # E) st st1"
proof -
  from assms(2) obtain L where L: "trace st1 = trace st2 @ L"
    "fst ` set L \<subseteq> {r'. g = Fn r'} \<union> {r. \<exists>q. (q, Fn r) \<in> set E}" "fst ` set E \<subseteq> fst ` set L"
    by (auto simp: accounted_def)
  have "trace st1 = trace st @ ((r, c, xs) # L)" using L(1) assms(1) by simp
  moreover have "fst ` set ((r, c, xs) # L) \<subseteq> {r} \<union> {r'. \<exists>q. (q, Fn r') \<in> set ((r, g) # E)}"
    using L(2) by auto
  moreover have "fst ` set ((r, g) # E) \<subseteq> {} \<union> fst ` set ((r, c, xs) # L)"
    using L(3) by auto
  ultimately show ?thesis unfolding accounted_def by blast
qed

lemma accounted_invoke:
  assumes "accounted {r'. g = Fn r'} {} E1 st st2" and "accounted {} {r} E2 st2 st1"
  shows "accounted {} {r} ((r, g) # E1 @ E2) st st1"
proof -
  from assms(1) obtain L where L: "trace st2 = trace st @ L"
    "fst ` set L \<subseteq> {r'. g = Fn r'} \<union> {r. \<exists>q. (q, Fn r) \<in> set E1}" "fst ` set E1 \<subseteq> fst ` set L"
    by (auto simp: accounted_def)
  from assms(2) obtain M where M: "trace st1 = trace st2 @ M"
    "fst ` set M \<subseteq> {r. \<exists>q. (q, Fn r) \<in> set E2}" "fst ` set E2 \<subseteq> {r} \<union> fst ` set M"
    by (auto simp: accounted_def)
  have "trace st1 = trace st @ (L @ M)" using L(1) M(1) by simp
  moreover have "fst ` set (L @ M) \<subseteq> {} \<union> {r'. \<exists>q. (q, Fn r') \<in> set ((r, g) # E1 @ E2)}"
    using L(2) M(2) by auto
  moreover have "fst ` set ((r, g) # E1 @ E2) \<subseteq> {r} \<union> fst ` set (L @ M)"
    using L(3) M(3) by auto
  ultimately show ?thesis unfolding accounted_def by blast
qed

lemma accounted_nothing: "accounted R Q [] st st"
  by (simp add: accounted_def)

lemma edges_accounted:
  "call n st fv c xs = Some (res, st1) \<Longrightarrow>
     accounted {r. fv = Fn r} {} (call_edges n st fv c xs) st st1"
  "run n st a = Some (res, st1) \<Longrightarrow>
     accounted {} {r} (run_edges n st r a) st st1"
proof (induction n arbitrary: st fv c xs a r res st1)
  case 0
  { case 1 then show ?case by simp
  next
    case 2 then show ?case by simp }
next
  case (Suc n)
  { case 1
    show ?case
    proof (cases "\<exists>q. fv = Fn q \<and> q < length (funs st)")
      case False
      then have "st1 = st" and "call_edges (Suc n) st fv c xs = []"
        using "1.prems" by (auto split: val.splits if_splits)
      then show ?thesis by (simp add: accounted_nothing)
    next
      case True
      then obtain q where q: "fv = Fn q" "q < length (funs st)" by blast
      show ?thesis
      proof (cases "code (funs st ! q)")
        case (Native beh)
        then have "run n (enter st q c xs) (beh c xs) = Some (res, st1)"
          using "1.prems" q by simp
        then have "accounted {} {q} (run_edges n (enter st q c xs) q (beh c xs)) (enter st q c xs) st1"
          by (rule Suc.IH(2))
        then have "accounted {q} {} (run_edges n (enter st q c xs) q (beh c xs)) st st1"
          by (rule accounted_native)
        then show ?thesis using q Native by simp
      next
        case (Closure cl)
        show ?thesis
        proof (cases "closure_body (enter st q c xs) cl c xs")
          case (Apply st2 g c1 ys)
          then have "call n st2 g c1 ys = Some (res, st1)"
            using "1.prems" q Closure by simp
          then have a: "accounted {r'. g = Fn r'} {} (call_edges n st2 g c1 ys) st2 st1"
            by (rule Suc.IH(1))
          have "trace st2 = trace st @ [(q, c, xs)]"
            using closure_body_trace [OF Apply] by (simp add: enter_def)
          then have "accounted {q} {} ((q, g) # call_edges n st2 g c1 ys) st st1"
            using a by (rule accounted_closure)
          then show ?thesis using q Closure Apply by simp
        next
          case (Fail e st2)
          then have "st1 = st2" using "1.prems" q Closure by simp
          moreover have "st2 = enter st q c xs"
            using Fail by (cases cl) (auto simp: Let_def split: if_splits prod.splits)
          ultimately have "trace st1 = trace st @ [(q, c, xs)]" by (simp add: enter_def)
          then have "accounted {q} {} [] st st1" by (simp add: accounted_def)
          then show ?thesis using q Closure Fail by simp
        qed
      qed
    qed
  next
    case 2
    show ?case
    proof (cases a)
      case (Return v)
      then show ?thesis using "2.prems" by (simp add: accounted_nothing)
    next
      case (Raise v)
      then show ?thesis using "2.prems" by (simp add: accounted_nothing)
    next
      case (Invoke g c' ys k)
      from "2.prems" Invoke obtain r1 st2 where
        c1: "call n st g c' ys = Some (r1, st2)" and c2: "run n st2 (k r1) = Some (res, st1)"
        by (auto split: option.splits)
      have a1: "accounted {r'. g = Fn r'} {} (call_edges n st g c' ys) st st2"
        using c1 by (rule Suc.IH(1))
      have a2: "accounted {} {r} (run_edges n st2 r (k r1)) st2 st1"
        using c2 by (rule Suc.IH(2))
      have "accounted {} {r} ((r, g) # call_edges n st g c' ys @ run_edges n st2 r (k r1)) st st1"
        using a1 a2 by (rule accounted_invoke)
      then show ?thesis using Invoke c1 by simp
    qed }
qed

lemma bind_noargs_call:
  "b < length (funs st) \<Longrightarrow> code (funs st ! b) = Closure (Bind_noargs f ctx) \<Longrightarrow>
   call (Suc n) st (Fn b) c xs = call n (enter st b c xs) (Fn f) ctx xs"
  by simp

lemma wrapped_call:
  "b < length (funs st2) \<Longrightarrow> code (funs st2 ! b) = Closure (Wrapped f (Fn w)) \<Longrightarrow>
   call (Suc n) st2 (Fn b) c xs =
     call n (snd (bind (enter st2 b c xs) f [this_binding c])) (Fn w) (this_binding c)
       (fst (bind (enter st2 b c xs) f [this_binding c]) # xs)"
  by (simp add: update_append split: prod.split)

lemma bind_this:
  "bind st f [this_binding c] =
     (Fn (length (funs st)),
      st\<lparr>funs := funs st @ [\<lparr>code = Closure (Bind_noargs f (this_binding c)), methodized = Undefined\<rparr>]\<rparr>)"
  by (simp add: bind_def isUndefined_def arg_def slice_def alloc_def this_binding_defined)

text \<open>
  C5, as the claim states it, fails in its last part for a wrapper that holds the original
  itself: the wrapper of the third host never invokes its first argument (the callable 3,
  which no call names) and invokes the function 0 directly, so the original is entered.
\<close>

theorem wrap_direct_call_counterexample:
  "wrap host2 0 [Fn 1] =
     (Fn 2, host2\<lparr>funs := funs host2 @ [\<lparr>code = Closure (Wrapped 0 (Fn 1)), methodized = Undefined\<rparr>]\<rparr>) \<and>
   call 5 (snd (wrap host2 0 [Fn 1])) (Fn 2) (Obj 9) [Prim (JNum 5)] =
     Some (Normal (Prim (JStr ''done'')),
       (snd (wrap host2 0 [Fn 1]))
         \<lparr>funs := funs (snd (wrap host2 0 [Fn 1])) @
                    [\<lparr>code = Closure (Bind_noargs 0 (Obj 9)), methodized = Undefined\<rparr>],
          trace := [(2, Obj 9, [Prim (JNum 5)]), (1, Obj 9, [Fn 3, Prim (JNum 5)]),
                    (0, Undefined, [])]\<rparr>) \<and>
   call_edges 5 (snd (wrap host2 0 [Fn 1])) (Fn 2) (Obj 9) [Prim (JNum 5)] =
     [(2, Fn 1), (1, Fn 0)]"
  by (simp add: wrap_def bind_def isUndefined_def slice_def alloc_def arg_def host2_def
      calls_original_directly_def returns_this_def update_append enter_def eval_nat_numeral)

text \<open>
  C5, amended. \<open>wrap(w)\<close> on \<open>f\<close> returns a new callable. Invoking it on a receiver
  \<open>c\<close> with arguments \<open>xs\<close> is, after the entry into it, the invocation of \<open>w\<close> on the
  context of that invocation (\<open>this_binding c\<close>, which is \<open>c\<close> for an object) with, in
  front of \<open>xs\<close>, what \<open>bind\<close> returns for \<open>f\<close> and that context, the only argument
  when \<open>xs\<close> is empty. That first argument is a new callable, and invoking it, in any
  state where it is that callable and with any receiver and arguments \<open>ys\<close>, invokes
  \<open>f\<close> on that context with \<open>ys\<close>. If \<open>w\<close> is not \<open>f\<close> itself and, among the calls
  made while \<open>w\<close> runs, none is of that first argument and none but a call by that first
  argument is of \<open>f\<close>, then \<open>f\<close> is not entered during the invocation.
\<close>

theorem wrap_calls_wrapper:
  assumes "valid_fn st f" and "valid_fn st w"
    and "wrap st f [Fn w] = (wrapped, st1)"
    and "length (funs st) < length (funs st2)"
    and "code (funs st2 ! length (funs st)) = code (funs st1 ! length (funs st))"
    and "bind (enter st2 (length (funs st)) c xs) f [this_binding c] = (bound, st3)"
  shows "wrapped = Fn (length (funs st)) \<and>
         bound = Fn (length (funs st2)) \<and>
         call (Suc n) st2 wrapped c xs = call n st3 (Fn w) (this_binding c) (bound # xs) \<and>
         (is_object c \<longrightarrow> this_binding c = c) \<and>
         (length (funs st2) < length (funs st5) \<and>
          code (funs st5 ! length (funs st2)) = code (funs st3 ! length (funs st2)) \<longrightarrow>
            call (Suc k) st5 bound c' ys =
              call k (enter st5 (length (funs st2)) c' ys) (Fn f) (this_binding c) ys) \<and>
         (w \<noteq> f \<and>
          list_all (\<lambda>(q, g). g \<noteq> bound \<and> (g = Fn f \<longrightarrow> q = length (funs st2)))
            (call_edges n st3 (Fn w) (this_binding c) (bound # xs)) \<and>
          call (Suc n) st2 wrapped c xs = Some (res, st4) \<longrightarrow>
            f \<notin> set (entered_since st2 st4))"
proof -
  let ?b = "length (funs st)"
  let ?b' = "length (funs st2)"
  let ?E = "call_edges n st3 (Fn w) (this_binding c) (bound # xs)"
  have wr: "wrapped = Fn ?b" and cd1: "code (funs st1 ! ?b) = Closure (Wrapped f (Fn w))"
    using assms(3) by (auto simp: wrap_def alloc_def arg_def)
  have cd: "code (funs st2 ! ?b) = Closure (Wrapped f (Fn w))"
    using assms(5) cd1 by simp
  have bd: "bound = Fn ?b'"
    and st3: "st3 = st2\<lparr>funs := funs st2 @ [\<lparr>code = Closure (Bind_noargs f (this_binding c)), methodized = Undefined\<rparr>],
                        trace := trace st2 @ [(?b, c, xs)]\<rparr>"
    using assms(6) by (auto simp: bind_this enter_def)
  have eq: "call (Suc n) st2 wrapped c xs = call n st3 (Fn w) (this_binding c) (bound # xs)"
    using wrapped_call [OF assms(4) cd, of n c xs] assms(6) wr by simp
  have bound_eq: "call (Suc k) st5 bound c' ys =
              call k (enter st5 ?b' c' ys) (Fn f) (this_binding c) ys"
    if "?b' < length (funs st5)" and "code (funs st5 ! ?b') = code (funs st3 ! ?b')"
  proof -
    have "code (funs st5 ! ?b') = Closure (Bind_noargs f (this_binding c))"
      using that(2) st3 by simp
    then show ?thesis using that(1) bd by (simp add: bind_noargs_call)
  qed
  have never: "f \<notin> set (entered_since st2 st4)"
    if wf: "w \<noteq> f"
      and h: "list_all (\<lambda>(q, g). g \<noteq> bound \<and> (g = Fn f \<longrightarrow> q = ?b')) ?E"
      and run: "call (Suc n) st2 wrapped c xs = Some (res, st4)"
  proof
    assume ent: "f \<in> set (entered_since st2 st4)"
    have "call n st3 (Fn w) (this_binding c) (bound # xs) = Some (res, st4)"
      using run eq by simp
    then have "accounted {r. Fn w = Fn r} {} ?E st3 st4"
      by (rule edges_accounted(1))
    then obtain L where L: "trace st4 = trace st3 @ L"
      "fst ` set L \<subseteq> {w} \<union> {r. \<exists>q. (q, Fn r) \<in> set ?E}" "fst ` set ?E \<subseteq> fst ` set L"
      by (auto simp: accounted_def)
    have "trace st4 = trace st2 @ (?b, c, xs) # L"
      using L(1) st3 by simp
    then have es: "entered_since st2 st4 = ?b # map fst L"
      by (simp add: entered_since_def)
    have fb: "f \<noteq> ?b" and wb: "w \<noteq> ?b'"
      using assms(1,2,4) by (auto simp: valid_fn_def)
    from ent es fb have "f \<in> fst ` set L" by auto
    then obtain q where "(q, Fn f) \<in> set ?E" using L(2) wf by auto
    then have "q = ?b'" and "(?b', Fn f) \<in> set ?E"
      using h by (auto simp: list_all_iff)
    then have "?b' \<in> fst ` set L" using L(3) by force
    then obtain q' where "(q', Fn ?b') \<in> set ?E" using L(2) wb by auto
    then show False using h bd by (auto simp: list_all_iff)
  qed
  show ?thesis using wr bd eq bound_eq never by (simp add: this_binding_object)
qed

theorem wrap_calls_wrapper_witness:
  "wrap host1 0 [Fn 3] =
     (Fn 4, host1\<lparr>funs := funs host1 @ [\<lparr>code = Closure (Wrapped 0 (Fn 3)), methodized = Undefined\<rparr>]\<rparr>) \<and>
   call 5 (snd (wrap host1 0 [Fn 3])) (Fn 4) (Obj 9) [Fn 1] =
     Some (Normal (Prim (JStr ''skipped'')),
       (snd (wrap host1 0 [Fn 3]))
         \<lparr>funs := funs (snd (wrap host1 0 [Fn 3])) @
                    [\<lparr>code = Closure (Bind_noargs 0 (Obj 9)), methodized = Undefined\<rparr>],
          trace := [(4, Obj 9, [Fn 1]), (3, Obj 9, [Fn 5, Fn 1]), (1, Undefined, [])]\<rparr>) \<and>
   call_edges 4 (snd (bind (enter (snd (wrap host1 0 [Fn 3])) 4 (Obj 9) [Fn 1]) 0 [Obj 9]))
       (Fn 3) (Obj 9) [Fn 5, Fn 1] = [(3, Fn 1)] \<and>
   0 \<notin> set (entered_since (snd (wrap host1 0 [Fn 3]))
     ((snd (wrap host1 0 [Fn 3]))
         \<lparr>funs := funs (snd (wrap host1 0 [Fn 3])) @
                    [\<lparr>code = Closure (Bind_noargs 0 (Obj 9)), methodized = Undefined\<rparr>],
          trace := [(4, Obj 9, [Fn 1]), (3, Obj 9, [Fn 5, Fn 1]), (1, Undefined, [])]\<rparr>))"
proof -
  let ?st1 = "snd (wrap host1 0 [Fn 3])"
  let ?st3 = "snd (bind (enter ?st1 4 (Obj 9) [Fn 1]) 0 [Obj 9])"
  let ?st4 = "?st1\<lparr>funs := funs ?st1 @
                    [\<lparr>code = Closure (Bind_noargs 0 (Obj 9)), methodized = Undefined\<rparr>],
          trace := [(4, Obj 9, [Fn 1]), (3, Obj 9, [Fn 5, Fn 1]), (1, Undefined, [])]\<rparr>"
  have l: "length (funs host1) = 4" "length (funs ?st1) = 5"
    by (simp_all add: wrap_def alloc_def host1_def)
  have v: "valid_fn host1 0" "valid_fn host1 3" by (simp_all add: valid_fn_def host1_def)
  have e: "wrap host1 0 [Fn 3] = (Fn 4, ?st1)"
    by (simp add: wrap_def alloc_def host1_def)
  have e2: "wrap host1 0 [Fn 3] =
     (Fn 4, host1\<lparr>funs := funs host1 @ [\<lparr>code = Closure (Wrapped 0 (Fn 3)), methodized = Undefined\<rparr>]\<rparr>)"
    by (simp add: wrap_def alloc_def arg_def host1_def)
  have lt: "length (funs host1) < length (funs ?st1)" using l by simp
  have bd: "bind (enter ?st1 (length (funs host1)) (Obj 9) [Fn 1]) 0 [this_binding (Obj 9)] = (Fn 5, ?st3)"
    using l by (simp add: bind_def isUndefined_def arg_def slice_def alloc_def enter_def)
  have ed: "call_edges 4 ?st3 (Fn 3) (Obj 9) [Fn 5, Fn 1] = [(3, Fn 1)]"
    by (simp add: bind_def isUndefined_def slice_def wrap_def alloc_def arg_def host1_def
        invokes_second_def ignores_original_def enter_def eval_nat_numeral)
  note t = wrap_calls_wrapper [OF v e lt refl bd, unfolded l, of 4 _ _ _ _
      "Normal (Prim (JStr ''skipped''))" ?st4]
  have "call (Suc 4) ?st1 (Fn 4) (Obj 9) [Fn 1] = call 4 ?st3 (Fn 3) (this_binding (Obj 9)) [Fn 5, Fn 1]"
    using t by blast
  then have r: "call (Suc 4) ?st1 (Fn 4) (Obj 9) [Fn 1] = Some (Normal (Prim (JStr ''skipped'')), ?st4)"
    by (simp add: bind_def isUndefined_def slice_def wrap_def alloc_def arg_def host1_def
        invokes_second_def ignores_original_def enter_def eval_nat_numeral)
  have h: "list_all (\<lambda>(q, g). g \<noteq> Fn 5 \<and> (g = Fn 0 \<longrightarrow> q = 5))
             (call_edges 4 ?st3 (Fn 3) (this_binding (Obj 9)) [Fn 5, Fn 1])"
    using ed by simp
  have "(3::nat) \<noteq> 0" by simp
  then have n: "0 \<notin> set (entered_since ?st1 ?st4)"
    using t h r by blast
  have "Suc 4 = (5::nat)" by simp
  then have "call 5 ?st1 (Fn 4) (Obj 9) [Fn 1] = Some (Normal (Prim (JStr ''skipped'')), ?st4)"
    using r by simp
  then show ?thesis using e2 ed n by simp
qed

text \<open>
  A wrapper that does invoke its first argument, for comparison: the second wrapper of the
  host passes its other arguments on, and \<open>f\<close> is entered on the object 9, the receiver
  of the wrapped callable, although the wrapper invoked the bound original on no receiver.
\<close>

lemma wrap_proceeds_example:
  "call 6 (snd (wrap host1 0 [Fn 2])) (Fn 4) (Obj 9) [Prim (JNum 5)] =
     Some (Normal (Obj 9),
       (snd (wrap host1 0 [Fn 2]))
         \<lparr>funs := funs (snd (wrap host1 0 [Fn 2])) @
                    [\<lparr>code = Closure (Bind_noargs 0 (Obj 9)), methodized = Undefined\<rparr>],
          trace := [(4, Obj 9, [Prim (JNum 5)]), (2, Obj 9, [Fn 5, Prim (JNum 5)]),
                    (5, Undefined, [Prim (JNum 5)]), (0, Obj 9, [Prim (JNum 5)])]\<rparr>)"
  by (simp add: wrap_def bind_def isUndefined_def slice_def alloc_def arg_def host1_def
      proceeds_def returns_this_def update_append enter_def eval_nat_numeral)

section \<open>argumentNames\<close>

lemma match_declaration_declared:
  assumes "header_ok lead nm" and "list_all (\<lambda>c. c \<noteq> CHR '')'') params"
  shows "match_declaration (declaration_text lead nm params body) = Some params"
proof -
  let ?t = "''function'' @ nm @ ''('' @ params @ '')'' @ body"
  have 1: "dropWhile (\<lambda>c. is_space c \<or> c = CHR ''('') (lead @ ?t) = ?t"
    using assms(1) by (simp add: header_ok_def list_all_iff dropWhile_append2 is_space_def)
  have 2: "dropWhile (\<lambda>c. c \<noteq> CHR ''('') (nm @ ''('' @ params @ '')'' @ body) = ''('' @ params @ '')'' @ body"
    using assms(1) by (simp add: header_ok_def list_all_iff dropWhile_append2)
  have 3: "dropWhile (\<lambda>c. c \<noteq> CHR '')'') (params @ '')'' @ body) = '')'' @ body"
    using assms(2) by (simp add: list_all_iff dropWhile_append2)
  have 4: "takeWhile (\<lambda>c. c \<noteq> CHR '')'') (params @ '')'' @ body) = params"
    using assms(2) by (simp add: list_all_iff takeWhile_append2)
  show ?thesis
    unfolding declaration_text_def match_declaration_def 1 Let_def
    using 2 3 4 by simp
qed

lemma skip_line_comment_end:
  "list_all (\<lambda>x. \<not> is_newline x) s \<Longrightarrow> is_newline t \<Longrightarrow> skip_line_comment (s @ t # rest) = Some rest"
  by (induction s) simp_all

lemma skip_block_comment_end:
  "\<not> has_close s \<Longrightarrow> skip_block_comment (s @ CHR ''*'' # CHR ''/'' # rest) = Some rest"
  by (induction s rule: has_close.induct) auto

lemma strip_comments_keep:
  "c \<noteq> CHR ''/'' \<Longrightarrow> strip_comments (c # rest) = c # strip_comments rest"
  by (simp add: comment_end_def)

lemma strip_comments_keep_all:
  "list_all (\<lambda>c. c \<noteq> CHR ''/'') s \<Longrightarrow> strip_comments (s @ rest) = s @ strip_comments rest"
  by (induction s) (simp_all add: strip_comments_keep del: strip_comments.simps)

lemma is_space_not_slash: "is_space c \<Longrightarrow> c \<noteq> CHR ''/''"
  by (auto simp: is_space_def)

lemma strip_comments_filler:
  assumes "filler_ok p"
  shows "strip_comments (render_filler p @ rest) =
           (case p of Blank c \<Rightarrow> c # strip_comments rest | _ \<Rightarrow> strip_comments rest)"
proof (cases p)
  case (Blank c)
  then show ?thesis using assms
    by (simp add: strip_comments_keep is_space_not_slash del: strip_comments.simps)
next
  case (Line_comment s t)
  then have "list_all (\<lambda>x. \<not> is_newline x) s" "is_newline t"
    using assms by (auto simp: list_all_iff)
  then have "comment_end (''//'' @ s @ t # rest) = Some rest"
    by (simp add: comment_end_def skip_line_comment_end)
  then show ?thesis using Line_comment by simp
next
  case (Block_comment s)
  then have "\<not> has_close s" using assms by simp
  then have "comment_end (''/*'' @ s @ ''*/'' @ rest) = Some rest"
    by (simp add: comment_end_def skip_block_comment_end)
  then show ?thesis using Block_comment by simp
qed

lemma stripped_padding:
  "list_all filler_ok pad \<Longrightarrow> stripped (render_padding pad @ rest) = stripped rest"
proof (induction pad)
  case Nil
  then show ?case by (simp add: render_padding_def)
next
  case (Cons p pad)
  then have ih: "stripped (render_padding pad @ rest) = stripped rest" and ok: "filler_ok p" by simp_all
  have "stripped (render_filler p @ render_padding pad @ rest) = stripped (render_padding pad @ rest)"
    using ok strip_comments_filler [OF ok, of "render_padding pad @ rest"]
    by (cases p) (simp_all add: stripped_def strip_spaces_def)
  then show ?case using ih by (simp add: render_padding_def)
qed

lemma stripped_name:
  "list_all (\<lambda>c. \<not> is_space c \<and> c \<noteq> CHR ''/'') s \<Longrightarrow> stripped (s @ rest) = s @ stripped rest"
proof -
  assume a: "list_all (\<lambda>c. \<not> is_space c \<and> c \<noteq> CHR ''/'') s"
  then have "list_all (\<lambda>c. c \<noteq> CHR ''/'') s" by (simp add: list_all_iff)
  then have "strip_comments (s @ rest) = s @ strip_comments rest" by (rule strip_comments_keep_all)
  moreover have "filter (\<lambda>c. \<not> is_space c) s = s" using a by (simp add: list_all_iff)
  ultimately show ?thesis by (simp add: stripped_def strip_spaces_def)
qed

lemma stripped_param:
  assumes "param_ok p"
  shows "stripped (render_param p @ rest) = param_name p @ stripped rest"
proof -
  have n: "list_all (\<lambda>c. \<not> is_space c \<and> c \<noteq> CHR ''/'') (param_name p)"
    using assms by (auto simp: param_ok_def list_all_iff)
  have "stripped (render_param p @ rest) = stripped (param_name p @ render_padding (pad_after p) @ rest)"
    using assms stripped_padding [of "pad_before p"] by (simp add: render_param_def param_ok_def)
  also have "\<dots> = param_name p @ stripped (render_padding (pad_after p) @ rest)"
    using n by (rule stripped_name)
  also have "\<dots> = param_name p @ stripped rest"
    using assms stripped_padding [of "pad_after p"] by (simp add: param_ok_def)
  finally show ?thesis .
qed

lemma stripped_comma: "stripped (CHR '','' # rest) = CHR '','' # stripped rest"
  using stripped_name [of "'',''" rest] by (simp add: is_space_def)

lemma stripped_Nil: "stripped [] = []"
  by (simp add: stripped_def strip_spaces_def)

lemma stripped_params:
  "list_all param_ok ps \<Longrightarrow> stripped (render_params ps) = join_commas (map param_name ps)"
proof (induction ps rule: induct_list012)
  case 1
  then show ?case by (simp add: render_params_def stripped_Nil)
next
  case (2 p)
  then show ?case using stripped_param [of p "[]"] by (simp add: render_params_def stripped_Nil)
next
  case (3 p q ps)
  then have ih: "stripped (render_params (q # ps)) = join_commas (map param_name (q # ps))" and ok: "param_ok p"
    by simp_all
  have "stripped (render_params (p # q # ps)) =
        stripped (render_param p @ CHR '','' # render_params (q # ps))"
    by (simp add: render_params_def)
  also have "\<dots> = param_name p @ CHR '','' # stripped (render_params (q # ps))"
    using ok by (simp add: stripped_param stripped_comma)
  finally show ?case using ih by simp
qed

lemma split_commas_word:
  "list_all (\<lambda>c. c \<noteq> CHR '','') s \<Longrightarrow> split_commas (s @ CHR '','' # rest) = s # split_commas rest"
  by (induction s) simp_all

lemma split_commas_last:
  "list_all (\<lambda>c. c \<noteq> CHR '','') s \<Longrightarrow> split_commas s = [s]"
  by (induction s) simp_all

lemma split_join:
  "ns \<noteq> [] \<Longrightarrow> list_all (list_all (\<lambda>c. c \<noteq> CHR '','')) ns \<Longrightarrow> split_commas (join_commas ns) = ns"
proof (induction ns rule: induct_list012)
  case 1
  then show ?case by simp
next
  case (2 n)
  then show ?case by (simp add: split_commas_last)
next
  case (3 n m ns)
  then show ?case by (simp add: split_commas_word)
qed

lemma is_space_not_paren: "is_space c \<Longrightarrow> c \<noteq> CHR '')''"
  by (auto simp: is_space_def)

lemma is_newline_not_paren: "is_newline c \<Longrightarrow> c \<noteq> CHR '')''"
  by (auto simp: is_newline_def)

lemma filler_no_paren:
  assumes "filler_ok p"
  shows "list_all (\<lambda>c. c \<noteq> CHR '')'') (render_filler p)"
proof (cases p)
  case (Blank c)
  then show ?thesis using assms by (simp add: is_space_not_paren)
next
  case (Line_comment s t)
  then have "list_all (\<lambda>c. c \<noteq> CHR '')'') s" and "t \<noteq> CHR '')''"
    using assms by (simp_all add: list_all_iff is_newline_not_paren)
  then show ?thesis using Line_comment by simp
next
  case (Block_comment s)
  then show ?thesis using assms by simp
qed

lemma padding_no_paren:
  "list_all filler_ok pad \<Longrightarrow> list_all (\<lambda>c. c \<noteq> CHR '')'') (render_padding pad)"
  by (induction pad) (simp_all add: render_padding_def filler_no_paren)

lemma param_no_paren: "param_ok p \<Longrightarrow> list_all (\<lambda>c. c \<noteq> CHR '')'') (render_param p)"
proof -
  assume a: "param_ok p"
  then have "list_all (\<lambda>c. c \<noteq> CHR '')'') (param_name p)"
    by (simp add: param_ok_def list_all_iff)
  then show ?thesis
    using a by (simp add: param_ok_def render_param_def padding_no_paren)
qed

lemma params_no_paren:
  "list_all param_ok ps \<Longrightarrow> list_all (\<lambda>c. c \<noteq> CHR '')'') (render_params ps)"
  by (induction ps rule: induct_list012) (simp_all add: render_params_def param_no_paren)

text \<open>
  On a declaration in which no comment holds a closing parenthesis, \<open>argumentNames\<close>
  returns the declared names in their order, comments and white space stripped, and the
  empty list when there is no parameter; it leaves the state as it was.
\<close>

lemma argumentNames_declared:
  assumes "header_ok lead nm"
  shows "(ps \<noteq> [] \<and> list_all param_ok ps \<and>
          toString st f = declaration_text lead nm (render_params ps) body \<longrightarrow>
            argumentNames st f = (Some (map param_name ps), st)) \<and>
         (list_all filler_ok pad \<and>
          toString st f = declaration_text lead nm (render_padding pad) body \<longrightarrow>
            argumentNames st f = (Some [], st))"
proof (intro conjI impI)
  assume a: "ps \<noteq> [] \<and> list_all param_ok ps \<and>
          toString st f = declaration_text lead nm (render_params ps) body"
  then have m: "match_declaration (toString st f) = Some (render_params ps)"
    using assms by (simp add: match_declaration_declared params_no_paren)
  have s: "strip_spaces (strip_comments (render_params ps)) = join_commas (map param_name ps)"
    using a stripped_params [of ps] by (simp add: stripped_def)
  have c: "list_all (list_all (\<lambda>c. c \<noteq> CHR '','')) (map param_name ps)"
    using a by (auto simp: list_all_iff param_ok_def)
  have sp: "split_commas (join_commas (map param_name ps)) = map param_name ps"
    using a c by (simp add: split_join)
  have ne: "hd (map param_name ps) \<noteq> []"
    using a by (cases ps) (auto simp: param_ok_def)
  show "argumentNames st f = (Some (map param_name ps), st)"
    using m s sp ne by (simp add: argumentNames_def)
next
  assume a: "list_all filler_ok pad \<and>
          toString st f = declaration_text lead nm (render_padding pad) body"
  then have m: "match_declaration (toString st f) = Some (render_padding pad)"
    using assms by (simp add: match_declaration_declared padding_no_paren)
  have s: "strip_spaces (strip_comments (render_padding pad)) = []"
    using a stripped_padding [of pad "[]"] by (simp add: stripped_def strip_spaces_def)
  show "argumentNames st f = (Some [], st)"
    using m s by (simp add: argumentNames_def)
qed

lemma argumentNames_declared_example:
  "argumentNames host0 0 = (Some [''a'', ''b'', ''c''], host0) \<and>
   argumentNames (host0\<lparr>toString := \<lambda>r. ''function(/* none */) { return 1; }''\<rparr>) 0 =
     (Some [], host0\<lparr>toString := \<lambda>r. ''function(/* none */) { return 1; }''\<rparr>)"
proof -
  let ?ps = "[\<lparr>pad_before = [], param_name = ''a'', pad_after = []\<rparr>,
              \<lparr>pad_before = [Blank (CHR '' '')], param_name = ''b'', pad_after = []\<rparr>,
              \<lparr>pad_before = [Blank (CHR '' '')], param_name = ''c'', pad_after = []\<rparr>]"
  let ?pad = "[Block_comment '' none '']"
  let ?st = "host0\<lparr>toString := \<lambda>r. ''function(/* none */) { return 1; }''\<rparr>"
  have h: "header_ok [] '' ''" "header_ok [] []"
    by (simp_all add: header_ok_def)
  have ok: "list_all param_ok ?ps"
    by (simp add: param_ok_def is_space_def)
  have t: "toString host0 0 = declaration_text [] '' '' (render_params ?ps) '' { return this; }''"
    by (simp add: host0_def declaration_text_def render_params_def render_param_def render_padding_def)
  have okp: "list_all filler_ok ?pad"
    by simp
  have tp: "toString ?st 0 = declaration_text [] [] (render_padding ?pad) '' { return 1; }''"
    by (simp add: declaration_text_def render_padding_def)
  have 1: "argumentNames host0 0 = (Some [''a'', ''b'', ''c''], host0)"
    using argumentNames_declared [OF h(1), of ?ps host0 0 "'' { return this; }''"] ok t by simp
  have 2: "argumentNames ?st 0 = (Some [], ?st)"
    using argumentNames_declared [OF h(2), of _ ?st 0 "'' { return 1; }''" ?pad] okp tp by blast
  show ?thesis using 1 2 by simp
qed

text \<open>
  C6 fails on the code where a comment of the parameter list holds a closing parenthesis.
  The declaration \<open>function (a /* ) */, b, c) {}\<close> has the parameters \<open>a\<close>, \<open>b\<close>
  and \<open>c\<close>; the first regular expression captures the text up to the first closing
  parenthesis, \<open>a /* \<close>, in which the comment is no longer closed and so is not
  stripped, and \<open>argumentNames\<close> returns the single name \<open>a/*\<close>.
\<close>

theorem argumentNames_comment_with_paren:
  "argumentNames (host0\<lparr>toString := \<lambda>r. ''function (a /* ) */, b, c) {}''\<rparr>) 0 =
     (Some [''a/*''], host0\<lparr>toString := \<lambda>r. ''function (a /* ) */, b, c) {}''\<rparr>)"
  by (simp add: argumentNames_def match_declaration_def is_space_def comment_end_def
      strip_spaces_def)

end
